theory Spec2Isabelle
  imports Main "HOL-Library.Char_ord" "HOL-Library.List_Lexorder" "HOL-Library.Multiset"
begin

section \<open>String primitives used by PP\_metab\_proc.py\<close>

text \<open>
  Rules are Python \<open>str\<close> values; they are modelled as \<open>string\<close> (a list of
  characters). The order on strings is the lexicographic order on character codes, which is
  the order Python's \<open>sorted\<close> uses on \<open>str\<close>.
\<close>

text \<open>\<open>s.startswith(p)\<close>.\<close>

fun startswith :: "string \<Rightarrow> string \<Rightarrow> bool" where
  "startswith [] s = True"
| "startswith (p # ps) [] = False"
| "startswith (p # ps) (c # cs) = (p = c \<and> startswith ps cs)"

text \<open>\<open>sub in s\<close> for two strings: \<open>sub\<close> occurs in \<open>s\<close> as a contiguous substring.\<close>

fun contains :: "string \<Rightarrow> string \<Rightarrow> bool" where
  "contains sub [] = (sub = [])"
| "contains sub (c # cs) = (startswith sub (c # cs) \<or> contains sub cs)"

text \<open>
  \<open>s.split(sep)\<close> for a non-empty separator: the pieces between the non-overlapping
  occurrences of \<open>sep\<close>, found from the left. \<open>cur\<close> is the piece being read.
  (Python raises \<open>ValueError\<close> on an empty separator; every call site passes a literal.)
\<close>

function str_split_from :: "string \<Rightarrow> string \<Rightarrow> string \<Rightarrow> string list" where
  "str_split_from sep cur [] = [cur]"
| "str_split_from sep cur (c # cs) =
     (if sep \<noteq> [] \<and> startswith sep (c # cs)
      then cur # str_split_from sep [] (drop (length sep) (c # cs))
      else str_split_from sep (cur @ [c]) cs)"
  by pat_completeness auto
termination
  by (relation "measure (\<lambda>(sep, cur, s). length s)") auto

definition str_split :: "string \<Rightarrow> string \<Rightarrow> string list" where
  "str_split sep s = str_split_from sep [] s"

text \<open>
  Character classes of the regular expressions. A character is a code point below 256.
  \<open>\d\<close> is a decimal digit, and \<open>\s\<close> (also the set removed by \<open>str.strip()\<close>) is
  whitespace: the characters with codes 9 to 13, 28 to 31, 32, 133 (next line) and 160
  (no-break space). Python also counts the digits and the spaces of the code points from
  256 on, which a \<open>char\<close> cannot hold.
\<close>

definition is_digit :: "char \<Rightarrow> bool" where
  "is_digit c = (c \<in> set ''0123456789'')"

definition is_space :: "char \<Rightarrow> bool" where
  "is_space c = (c \<in> set [CHR 0x09, CHR 0x0A, CHR 0x0B, CHR 0x0C, CHR 0x0D,
                            CHR 0x1C, CHR 0x1D, CHR 0x1E, CHR 0x1F, CHR 0x20,
                            CHR 0x85, CHR 0xA0])"

text \<open>\<open>s.strip()\<close>.\<close>

definition strip :: "string \<Rightarrow> string" where
  "strip s = rev (dropWhile is_space (rev (dropWhile is_space s)))"

text \<open>\<open>s.replace(c, '')\<close> for a one-character string \<open>c\<close>.\<close>

definition remove_char :: "char \<Rightarrow> string \<Rightarrow> string" where
  "remove_char c s = filter (\<lambda>x. x \<noteq> c) s"

subsection \<open>The identifier pattern \<open>PP_\d{4}|pWW0_\d+\<close>\<close>

text \<open>
  Each matcher returns the length of the match of its alternative at the start of the
  string, if there is one. The first alternative is tried first; \<open>\d+\<close> is greedy and
  is the last item of its alternative, so it takes every digit that follows.
\<close>

definition match_PP :: "string \<Rightarrow> nat option" where
  "match_PP s =
     (if startswith ''PP_'' s \<and> 4 \<le> length (drop 3 s) \<and> list_all is_digit (take 4 (drop 3 s))
      then Some 7 else None)"

definition match_pWW0 :: "string \<Rightarrow> nat option" where
  "match_pWW0 s =
     (if startswith ''pWW0_'' s \<and> takeWhile is_digit (drop 5 s) \<noteq> []
      then Some (5 + length (takeWhile is_digit (drop 5 s))) else None)"

definition match_id :: "string \<Rightarrow> nat option" where
  "match_id s = (case match_PP s of Some n \<Rightarrow> Some n | None \<Rightarrow> match_pWW0 s)"

text \<open>\<open>r.match(s)\<close> used as a truth value: the pattern matches at the start of \<open>s\<close>.\<close>

definition r_match :: "string \<Rightarrow> bool" where
  "r_match s = (match_id s \<noteq> None)"

lemma match_id_pos: "match_id s = Some n \<Longrightarrow> 0 < n"
  by (auto simp: match_id_def match_PP_def match_pWW0_def split: option.splits if_splits)

text \<open>
  \<open>re.findall('PP_\d{4}|pWW0_\d+', s)\<close>: the non-overlapping matches, scanning from the
  left; after a match the scan resumes right behind it.
\<close>

function re_findall :: "string \<Rightarrow> string list" where
  "re_findall [] = []"
| "re_findall (c # cs) =
     (case match_id (c # cs) of
        Some n \<Rightarrow> take n (c # cs) # re_findall (drop n (c # cs))
      | None \<Rightarrow> re_findall cs)"
  by pat_completeness auto
termination
  by (relation "measure length") (auto dest: match_id_pos)

subsection \<open>The boundary pattern \<open>\)\s*or\s*|\s*or\s*\(\<close>\<close>

text \<open>
  Length of the match of each alternative at the start of the string. Whitespace and the
  letters of \<open>or\<close> are disjoint, so the greedy \<open>\s*\<close> never has to give characters back.
\<close>

definition match_close_or :: "string \<Rightarrow> nat option" where
  "match_close_or s =
     (case s of
        [] \<Rightarrow> None
      | c # r \<Rightarrow>
          (let k = length (takeWhile is_space r);
               r2 = drop k r
           in if c = CHR '')'' \<and> startswith ''or'' r2
              then Some (1 + k + 2 + length (takeWhile is_space (drop 2 r2)))
              else None))"

definition match_or_open :: "string \<Rightarrow> nat option" where
  "match_or_open s =
     (let k = length (takeWhile is_space s);
          r = drop k s;
          j = length (takeWhile is_space (drop 2 r))
      in if startswith ''or'' r \<and> startswith ''('' (drop (2 + j) r)
         then Some (k + 2 + j + 1)
         else None)"

definition match_boundary :: "string \<Rightarrow> nat option" where
  "match_boundary s = (case match_close_or s of Some n \<Rightarrow> Some n | None \<Rightarrow> match_or_open s)"

lemma match_boundary_pos: "match_boundary s = Some n \<Longrightarrow> 0 < n"
  by (auto simp: match_boundary_def match_close_or_def match_or_open_def Let_def
           split: option.splits if_splits list.splits)

text \<open>
  \<open>re.split(r'\)\s*or\s*|\s*or\s*\(', s)\<close>: the pieces between the leftmost
  non-overlapping matches of the boundary pattern (every match is non-empty).
\<close>

function re_split_from :: "string \<Rightarrow> string \<Rightarrow> string list" where
  "re_split_from cur [] = [cur]"
| "re_split_from cur (c # cs) =
     (case match_boundary (c # cs) of
        Some n \<Rightarrow> cur # re_split_from [] (drop n (c # cs))
      | None \<Rightarrow> re_split_from (cur @ [c]) cs)"
  by pat_completeness auto
termination
  by (relation "measure (\<lambda>(cur, s). length s)") (auto dest: match_boundary_pos)

definition re_split :: "string \<Rightarrow> string list" where
  "re_split s = re_split_from [] s"

subsection \<open>\<open>itertools.product\<close>\<close>

text \<open>
  \<open>product(*axes)\<close>: every way of choosing one element per axis, the rightmost axis
  advancing fastest. The product of no axes is the one empty tuple.
\<close>

fun itertools_product :: "'a list list \<Rightarrow> 'a list list" where
  "itertools_product [] = [[]]"
| "itertools_product (axis # axes) =
     concat (map (\<lambda>x. map (\<lambda>t. x # t) (itertools_product axes)) axis)"

section \<open>PART 1 of PP\_metab\_proc.py: monomers and complexes\<close>

text \<open>
  The script keeps its working values in module-level variables, which survive from one
  rule to the next. A variable that has not been assigned yet is \<open>None\<close>; reading it
  raises \<open>NameError\<close>.
\<close>

datatype error = NameError

record state =
  monomers :: "string list"
  complexes :: "string list list"
  perma_prot :: "string list list option"
  variable_prot :: "string list list option"
  perma_flat :: "string list option"

subsection \<open>The monomer loop (lines 100 to 110)\<close>

text \<open>\<open>for mon in newlist\<close>: the stripped segment, without parentheses, is stored
  unless it is present already.\<close>

fun store_monomers :: "string list \<Rightarrow> string list \<Rightarrow> string list" where
  "store_monomers [] mons = mons"
| "store_monomers (seg # newlist) mons =
     (let mon = remove_char CHR '')'' (remove_char CHR ''('' (strip seg))
      in store_monomers newlist (if mon \<notin> set mons then mons @ [mon] else mons))"

definition monomer_rule :: "string \<Rightarrow> string list \<Rightarrow> string list" where
  "monomer_rule ID mons =
     (if \<not> contains ''and'' ID
      then store_monomers (filter r_match (str_split '' or '' ID)) mons
      else mons)"

fun monomer_loop :: "string list \<Rightarrow> string list \<Rightarrow> string list" where
  "monomer_loop [] mons = mons"
| "monomer_loop (ID # genes) mons = monomer_loop genes (monomer_rule ID mons)"

subsection \<open>The complex loop (lines 116 to 246)\<close>

text \<open>\<open>complexes.extend([list(t) + perma_flat for t in product(*variable_prot)])\<close>.\<close>

definition extend_product ::
  "string list list \<Rightarrow> string list list \<Rightarrow> string list \<Rightarrow> string list list" where
  "extend_product cs variable flat = cs @ map (\<lambda>t. t @ flat) (itertools_product variable)"

text \<open>
  Opt 2, lines 133 to 146: the segments without \<open>or\<close> are fixed, the others are one
  axis each; \<open>perma_flat\<close> is assigned in the body of the loop.
\<close>

fun opt2_loop ::
  "string list \<Rightarrow> string list list \<times> string list list \<times> string list option \<Rightarrow>
   string list list \<times> string list list \<times> string list option" where
  "opt2_loop [] (perma, variable, flat) = (perma, variable, flat)"
| "opt2_loop (element # split1) (perma, variable, flat) =
     (let r = re_findall element;
          perma' = (if \<not> contains ''or'' element then perma @ [r] else perma);
          variable' = (if \<not> contains ''or'' element then variable else variable @ [r])
      in opt2_loop split1 (perma', variable', Some (concat perma')))"

definition opt2 :: "string \<Rightarrow> state \<Rightarrow> error + state" where
  "opt2 ID st =
     (case opt2_loop (str_split '' and '' ID) ([], [], perma_flat st) of
        (perma, variable, None) \<Rightarrow> Inl NameError
      | (perma, variable, Some flat) \<Rightarrow>
          Inr (st\<lparr>complexes := extend_product (complexes st) variable flat,
                  perma_prot := Some perma, variable_prot := Some variable,
                  perma_flat := Some flat\<rparr>))"

text \<open>Opt 3, lines 175 to 185: the same sorting of segments, \<open>perma_flat\<close> after the loop.\<close>

fun opt3_segments ::
  "string list \<Rightarrow> string list list \<times> string list list \<Rightarrow> string list list \<times> string list list" where
  "opt3_segments [] (perma, variable) = (perma, variable)"
| "opt3_segments (element2 # split2) (perma, variable) =
     (let r = re_findall element2
      in opt3_segments split2
           (if \<not> contains ''or'' element2 then (perma @ [r], variable)
            else (perma, variable @ [r])))"

text \<open>
  Opt 3, lines 164 to 195. Line 168 appends to \<open>variable_prot\<close> without assigning it in
  this branch: it uses whatever an earlier rule left there.
\<close>

fun opt3_loop :: "string list \<Rightarrow> state \<Rightarrow> error + state" where
  "opt3_loop [] st = Inr st"
| "opt3_loop (element # split1) st =
     (if contains ''or'' element \<and> \<not> contains ''and'' element then
        (case variable_prot st of
           None \<Rightarrow> Inl NameError
         | Some variable \<Rightarrow>
             opt3_loop split1 (st\<lparr>variable_prot := Some (variable @ [re_findall element])\<rparr>))
      else if contains ''or'' element \<and> contains ''and'' element then
        (case opt3_segments (str_split ''and'' element) ([], []) of
           (perma, variable) \<Rightarrow>
             opt3_loop split1
               (st\<lparr>complexes := extend_product (complexes st) variable (concat perma),
                   perma_prot := Some perma, variable_prot := Some variable,
                   perma_flat := Some (concat perma)\<rparr>))
      else opt3_loop split1 (st\<lparr>complexes := complexes st @ [re_findall element]\<rparr>))"

definition opt3 :: "string \<Rightarrow> state \<Rightarrow> error + state" where
  "opt3 ID st =
     (let split1 = str_split '') or ('' ID
      in if list_all (\<lambda>x. \<not> contains ''or'' x) split1
         then Inr (st\<lparr>complexes := complexes st @ map re_findall split1\<rparr>)
         else opt3_loop split1 st)"

text \<open>
  Line 211, \<open>r not in monomers\<close>, asks whether the list \<open>r\<close> is an element of a list of
  strings. Python compares a list with a \<open>str\<close> as unequal, whatever they hold.
\<close>

definition list_eq_str :: "string list \<Rightarrow> string \<Rightarrow> bool" where
  "list_eq_str r mon = False"

definition list_in_monomers :: "string list \<Rightarrow> string list \<Rightarrow> bool" where
  "list_in_monomers r mons = list_ex (list_eq_str r) mons"

text \<open>Opt 4, lines 228 to 246: both lists are emptied for every \<open>element2\<close>.\<close>

fun opt4_inner :: "string list \<Rightarrow> state \<Rightarrow> state" where
  "opt4_inner [] st = st"
| "opt4_inner (element2 # split2) st =
     (let r = re_findall element2;
          perma = (if \<not> contains ''or'' element2 then [r] else []);
          variable = (if \<not> contains ''or'' element2 then [] else [r]);
          flat = concat perma
      in opt4_inner split2
           (st\<lparr>complexes := extend_product (complexes st) variable flat,
               perma_prot := Some perma, variable_prot := Some variable,
               perma_flat := Some flat\<rparr>))"

text \<open>Opt 4, lines 206 to 246.\<close>

fun opt4_loop :: "string list \<Rightarrow> state \<Rightarrow> state" where
  "opt4_loop [] st = st"
| "opt4_loop (element # split1) st =
     (if \<not> contains ''or'' element \<and> \<not> contains ''and'' element then
        (let r = re_findall element
         in opt4_loop split1
              (if \<not> list_in_monomers r (monomers st)
               then st\<lparr>monomers := monomers st @ r\<rparr> else st))
      else if \<not> contains ''or'' element then
        opt4_loop split1 (st\<lparr>complexes := complexes st @ [re_findall element]\<rparr>)
      else if contains ''or'' element \<and> \<not> contains ''and'' element then
        opt4_loop split1
          (st\<lparr>monomers := monomers st @
                 filter (\<lambda>mon. mon \<notin> set (monomers st)) (re_findall element)\<rparr>)
      else opt4_loop split1 (opt4_inner (str_split ''or'' element) st))"

definition opt4 :: "string \<Rightarrow> state \<Rightarrow> error + state" where
  "opt4 ID st =
     Inr (opt4_loop (re_split ID) (st\<lparr>perma_prot := Some [], variable_prot := Some []\<rparr>))"

text \<open>The body of the loop of line 116 for one rule.\<close>

definition classify_rule :: "string \<Rightarrow> state \<Rightarrow> error + state" where
  "classify_rule ID st =
     (if contains ''and'' ID then
        if \<not> contains ''or'' ID then
          Inr (st\<lparr>complexes := complexes st @ [re_findall ID]\<rparr>)
        else if contains '' or '' ID \<and> \<not> contains '') or'' ID \<and> \<not> contains ''or ('' ID then
          opt2 ID st
        else if contains '') or ('' ID then opt3 ID st
        else opt4 ID st
      else Inr st)"

fun complex_loop :: "string list \<Rightarrow> state \<Rightarrow> error + state" where
  "complex_loop [] st = Inr st"
| "complex_loop (ID # genes) st =
     (case classify_rule ID st of
        Inl e \<Rightarrow> Inl e
      | Inr st' \<Rightarrow> complex_loop genes st')"

subsection \<open>Data purification (lines 249 to 259)\<close>

text \<open>Line 252: the empty lists are deleted.\<close>

definition delete_empty :: "string list list \<Rightarrow> string list list" where
  "delete_empty cs = filter (\<lambda>c. c \<noteq> []) cs"

text \<open>Lines 255 to 259: each complex is sorted and stored unless its sorted form is
  stored already. \<open>unique\<close> is the list built so far.\<close>

fun unique_loop :: "string list list \<Rightarrow> string list list \<Rightarrow> string list list" where
  "unique_loop [] unique = unique"
| "unique_loop (c # cs) unique =
     (let s = sort c
      in unique_loop cs (if s \<notin> set unique then unique @ [s] else unique))"

definition unique_complexes :: "string list list \<Rightarrow> string list list" where
  "unique_complexes cs = unique_loop cs []"

subsection \<open>PART 1 as a whole\<close>

definition initial_state :: "string list \<Rightarrow> state" where
  "initial_state ms =
     \<lparr>monomers = ms, complexes = [], perma_prot = None, variable_prot = None,
      perma_flat = None\<rparr>"

text \<open>The monomer list and the complex collection computed from the rules \<open>genes\<close>.\<close>

definition part1 :: "string list \<Rightarrow> error + (string list \<times> string list list)" where
  "part1 genes =
     (case complex_loop genes (initial_state (monomer_loop genes [])) of
        Inl e \<Rightarrow> Inl e
      | Inr st \<Rightarrow> Inr (monomers st, unique_complexes (delete_empty (complexes st))))"

text \<open>Line 563, \<open>'-'.join(c)\<close>: the name of a complex's FASTA file, without extension.\<close>

fun join_dash :: "string list \<Rightarrow> string" where
  "join_dash [] = []"
| "join_dash [x] = x"
| "join_dash (x # y # ys) = x @ ''-'' @ join_dash (y # ys)"

subsection \<open>Identifiers\<close>

text \<open>
  An identifier is a string of one of the two lexical forms: \<open>PP_\<close> and four digits, or
  \<open>pWW0_\<close> and one or more digits.
\<close>

definition is_identifier :: "string \<Rightarrow> bool" where
  "is_identifier s =
     ((take 3 s = ''PP_'' \<and> length s = 7 \<and> list_all is_digit (drop 3 s)) \<or>
      (take 5 s = ''pWW0_'' \<and> 5 < length s \<and> list_all is_digit (drop 5 s)))"

subsection \<open>The fixed-plus-variable shape, as the specification words it\<close>

text \<open>
  The rule is split on \<open>' and '\<close>. A segment that contains \<open>or\<close> is a variable axis: the
  list of its identifier matches. The matches of the other segments, flattened, are fixed.
  There is one complex per tuple of the cartesian product of the axes: the tuple followed
  by the fixed matches.
\<close>

definition variable_axes :: "string \<Rightarrow> string list list" where
  "variable_axes ID = map re_findall (filter (contains ''or'') (str_split '' and '' ID))"

definition fixed_matches :: "string \<Rightarrow> string list" where
  "fixed_matches ID =
     concat (map re_findall (filter (\<lambda>seg. \<not> contains ''or'' seg) (str_split '' and '' ID)))"

definition fixed_plus_variable :: "string \<Rightarrow> string list list" where
  "fixed_plus_variable ID =
     map (\<lambda>t. t @ fixed_matches ID) (itertools_product (variable_axes ID))"

section \<open>Basic facts about the string primitives\<close>

lemma startswith_iff: "startswith p s \<longleftrightarrow> (\<exists>t. s = p @ t)"
  by (induction p s rule: startswith.induct) auto

lemma contains_iff: "contains sub s \<longleftrightarrow> (\<exists>a b. s = a @ sub @ b)"
proof (induction s)
  case Nil
  then show ?case by auto
next
  case (Cons c cs)
  show ?case
  proof
    assume "contains sub (c # cs)"
    then consider "startswith sub (c # cs)" | "contains sub cs" by auto
    then show "\<exists>a b. c # cs = a @ sub @ b"
    proof cases
      case 1
      then obtain t where "c # cs = sub @ t" by (auto simp: startswith_iff)
      then have "c # cs = [] @ sub @ t" by simp
      then show ?thesis by blast
    next
      case 2
      then obtain a b where "cs = a @ sub @ b" using Cons.IH by blast
      then have "c # cs = (c # a) @ sub @ b" by simp
      then show ?thesis by blast
    qed
  next
    assume "\<exists>a b. c # cs = a @ sub @ b"
    then obtain a b where ab: "c # cs = a @ sub @ b" by blast
    show "contains sub (c # cs)"
    proof (cases a)
      case Nil
      then have "startswith sub (c # cs)" using ab by (auto simp: startswith_iff)
      then show ?thesis by simp
    next
      case (Cons x a')
      then have "cs = a' @ sub @ b" using ab by simp
      then have "contains sub cs" using Cons.IH by blast
      then show ?thesis by simp
    qed
  qed
qed

text \<open>No piece of \<open>s.split(sep)\<close> contains the separator.\<close>

lemma str_split_from_no_sep:
  assumes "sep \<noteq> []"
    and "\<And>a b. cur @ s = a @ sep @ b \<Longrightarrow> length cur \<le> length a"
    and "p \<in> set (str_split_from sep cur s)"
  shows "\<not> contains sep p"
  using assms
proof (induction sep cur s rule: str_split_from.induct)
  case (1 sep cur)
  then have "p = cur" by simp
  show ?case
  proof
    assume "contains sep p"
    then obtain a b where "cur = a @ sep @ b" using \<open>p = cur\<close> by (auto simp: contains_iff)
    then have "length cur \<le> length a" "length cur = length a + length sep + length b"
      using "1.prems"(2) [of a b] by simp_all
    then show False using "1.prems"(1) by simp
  qed
next
  case (2 sep cur c cs)
  show ?case
  proof (cases "startswith sep (c # cs)")
    case True
    then have res: "p = cur \<or> p \<in> set (str_split_from sep [] (drop (length sep) (c # cs)))"
      using "2.prems" by simp
    have cur_ok: "\<not> contains sep cur"
    proof
      assume "contains sep cur"
      then obtain a b where ab: "cur = a @ sep @ b" by (auto simp: contains_iff)
      then have "cur @ c # cs = a @ sep @ (b @ c # cs)" by simp
      then have "length cur \<le> length a" by (rule "2.prems"(2))
      then show False using ab "2.prems"(1) by simp
    qed
    show ?thesis
    proof (cases "p = cur")
      case True
      then show ?thesis using cur_ok by simp
    next
      case False
      then have "p \<in> set (str_split_from sep [] (drop (length sep) (c # cs)))"
        using res by simp
      then show ?thesis
        using "2.IH"(1) [of] "2.prems"(1) True by simp
    qed
  next
    case False
    then have mem: "p \<in> set (str_split_from sep (cur @ [c]) cs)"
      using "2.prems" by simp
    have inv: "length (cur @ [c]) \<le> length a" if eq: "(cur @ [c]) @ cs = a @ sep @ b" for a b
    proof -
      have eq': "cur @ c # cs = a @ sep @ b" using eq by simp
      then have le: "length cur \<le> length a" by (rule "2.prems"(2))
      have "length a \<noteq> length cur"
      proof
        assume "length a = length cur"
        then have "a = cur" "c # cs = sep @ b" using eq' by (auto simp: append_eq_append_conv)
        then have "startswith sep (c # cs)" by (auto simp: startswith_iff)
        then show False using False by simp
      qed
      then show ?thesis using le by simp
    qed
    show ?thesis
      using "2.IH"(2) [OF _ "2.prems"(1) inv mem] False by simp
  qed
qed

lemma str_split_no_sep:
  "sep \<noteq> [] \<Longrightarrow> p \<in> set (str_split sep s) \<Longrightarrow> \<not> contains sep p"
  unfolding str_split_def by (rule str_split_from_no_sep [of sep "[]" s]) simp_all

lemma str_split_from_not_Nil: "str_split_from sep cur s \<noteq> []"
  by (induction sep cur s rule: str_split_from.induct) simp_all

section \<open>Matches of the identifier pattern\<close>

text \<open>Every match of the pattern is an identifier.\<close>

lemma take_length_plus: "take (length xs + k) (xs @ ys) = xs @ take k ys"
  by simp

lemma match_PP_identifier:
  assumes "match_PP s = Some n"
  shows "is_identifier (take n s)"
proof -
  from assms have n: "n = 7" and sw: "startswith ''PP_'' s" and len: "4 \<le> length (drop 3 s)"
    and dg: "list_all is_digit (take 4 (drop 3 s))"
    by (auto simp: match_PP_def split: if_splits)
  obtain t where s: "s = ''PP_'' @ t" using sw unfolding startswith_iff by blast
  have "4 \<le> length t" using len s by simp
  moreover have "list_all is_digit (take 4 t)" using dg s by simp
  ultimately have "is_identifier (''PP_'' @ take 4 t)"
    by (simp add: is_identifier_def)
  moreover have "take 7 s = ''PP_'' @ take 4 t" using s by simp
  ultimately show ?thesis using n by simp
qed

lemma match_pWW0_identifier:
  assumes "match_pWW0 s = Some n"
  shows "is_identifier (take n s)"
proof -
  let ?ds = "takeWhile is_digit (drop 5 s)"
  from assms have n: "n = 5 + length ?ds" and sw: "startswith ''pWW0_'' s" and ne: "?ds \<noteq> []"
    by (auto simp: match_pWW0_def split: if_splits)
  obtain t where s: "s = ''pWW0_'' @ t" using sw unfolding startswith_iff by blast
  have t: "drop 5 s = t" using s by simp
  have tw: "take (length (takeWhile is_digit t)) t = takeWhile is_digit t"
    by (metis takeWhile_eq_take)
  have "n = length ''pWW0_'' + length (takeWhile is_digit t)" using n t by simp
  then have "take n s = take (length ''pWW0_'' + length (takeWhile is_digit t)) (''pWW0_'' @ t)"
    using s by (simp only:)
  also have "\<dots> = ''pWW0_'' @ take (length (takeWhile is_digit t)) t"
    by (rule take_length_plus)
  finally have tk: "take n s = ''pWW0_'' @ takeWhile is_digit t"
    by (simp only: tw)
  have "list_all is_digit (takeWhile is_digit t)"
    by (simp add: list_all_iff) (metis set_takeWhileD)
  then have "is_identifier (''pWW0_'' @ takeWhile is_digit t)"
    using ne t by (simp add: is_identifier_def)
  then show ?thesis using tk by simp
qed

lemma match_id_identifier_take: "match_id s = Some n \<Longrightarrow> is_identifier (take n s)"
  by (auto simp: match_id_def match_PP_identifier match_pWW0_identifier split: option.splits)

lemma re_findall_members: "m \<in> set (re_findall s) \<Longrightarrow> is_identifier m"
proof (induction s rule: re_findall.induct)
  case 1
  then show ?case by simp
next
  case (2 c cs)
  show ?case
  proof (cases "match_id (c # cs)")
    case None
    then show ?thesis using 2 by simp
  next
    case (Some n)
    then have "m = take n (c # cs) \<or> m \<in> set (re_findall (drop n (c # cs)))"
      using "2.prems" by simp
    then show ?thesis
      using "2.IH"(2) [OF Some] match_id_identifier_take [OF Some] by blast
  qed
qed

lemma re_findall_identifiers: "list_all is_identifier (re_findall s)"
  by (simp add: list_all_iff re_findall_members)

section \<open>The Deduplicator\<close>

lemma unique_loop_snoc:
  "unique_loop (cs @ [c]) acc =
     (if sort c \<notin> set (unique_loop cs acc) then unique_loop cs acc @ [sort c]
      else unique_loop cs acc)"
  by (induction cs arbitrary: acc) (simp_all add: Let_def)

lemma set_unique_loop: "set (unique_loop cs acc) = set acc \<union> sort ` set cs"
  by (induction cs arbitrary: acc) (auto simp: Let_def)

lemma distinct_unique_loop: "distinct acc \<Longrightarrow> distinct (unique_loop cs acc)"
  by (induction cs arbitrary: acc) (simp_all add: Let_def)

lemma set_unique_complexes: "set (unique_complexes cs) = sort ` set cs"
  by (simp add: unique_complexes_def set_unique_loop)

lemma distinct_unique_complexes: "distinct (unique_complexes cs)"
  by (simp add: unique_complexes_def distinct_unique_loop)

lemma sorted_unique_complexes: "u \<in> set (unique_complexes cs) \<Longrightarrow> sorted u"
  by (auto simp: set_unique_complexes)

text \<open>A list of distinct sorted tuples passes through the loop unchanged.\<close>

lemma unique_loop_fixed:
  "distinct (acc @ us) \<Longrightarrow> \<forall>u \<in> set us. sorted u \<Longrightarrow> unique_loop us acc = acc @ us"
proof (induction us arbitrary: acc)
  case Nil
  then show ?case by simp
next
  case (Cons u us)
  have s: "sort u = u" using Cons.prems(2) by (simp add: sort_key_id_if_sorted)
  have "u \<notin> set acc" using Cons.prems(1) by auto
  moreover have "distinct ((acc @ [u]) @ us)" using Cons.prems(1) by simp
  moreover have "\<forall>x \<in> set us. sorted x" using Cons.prems(2) by simp
  ultimately show ?case using Cons.IH [of "acc @ [u]"] s by (simp add: Let_def)
qed

text \<open>Two complexes have the same sorted form exactly when they have the same members
  with the same multiplicities.\<close>

lemma sort_eq_iff_mset: "sort (c1 :: 'a::linorder list) = sort c2 \<longleftrightarrow> mset c1 = mset c2"
  by (metis mset_sort properties_for_sort sorted_sort)

lemma seen_before_iff:
  assumes "i < length cs"
  shows "sort (cs ! i) \<in> sort ` set (take i cs) \<longleftrightarrow> (\<exists>j<i. mset (cs ! j) = mset (cs ! i))"
proof
  assume "sort (cs ! i) \<in> sort ` set (take i cs)"
  then obtain x where x: "x \<in> set (take i cs)" "sort (cs ! i) = sort x" by blast
  from x(1) obtain j where "j < length (take i cs)" "take i cs ! j = x"
    by (auto simp: in_set_conv_nth)
  then have "j < i" "cs ! j = x" by simp_all
  then show "\<exists>j<i. mset (cs ! j) = mset (cs ! i)"
    using x(2) sort_eq_iff_mset [of "cs ! j" "cs ! i"] by auto
next
  assume "\<exists>j<i. mset (cs ! j) = mset (cs ! i)"
  then obtain j where j: "j < i" "mset (cs ! j) = mset (cs ! i)" by blast
  have "take i cs ! j = cs ! j" using j(1) by simp
  moreover have "j < length (take i cs)" using j(1) assms by simp
  ultimately have "cs ! j \<in> set (take i cs)" by (metis nth_mem)
  moreover have "sort (cs ! i) = sort (cs ! j)"
    using j(2) sort_eq_iff_mset [of "cs ! i" "cs ! j"] by simp
  ultimately show "sort (cs ! i) \<in> sort ` set (take i cs)" by blast
qed

text \<open>The loop keeps, in input order, the sorted form of every complex that no earlier
  complex of the input equals up to the order of its members.\<close>

lemma unique_complexes_indices:
  "unique_complexes cs =
     map (\<lambda>i. sort (cs ! i))
       (filter (\<lambda>i. sort (cs ! i) \<notin> sort ` set (take i cs)) [0..<length cs])"
proof (induction cs rule: rev_induct)
  case Nil
  then show ?case by (simp add: unique_complexes_def)
next
  case (snoc c cs)
  let ?keep = "\<lambda>i. sort (cs ! i) \<notin> sort ` set (take i cs)"
  have idx: "filter (\<lambda>i. sort ((cs @ [c]) ! i) \<notin> sort ` set (take i (cs @ [c]))) [0..<length cs]
           = filter ?keep [0..<length cs]"
    by (rule filter_cong) (auto simp: nth_append)
  have mp: "map (\<lambda>i. sort ((cs @ [c]) ! i)) (filter ?keep [0..<length cs])
          = map (\<lambda>i. sort (cs ! i)) (filter ?keep [0..<length cs])"
    by (rule map_cong) (auto simp: nth_append)
  have "unique_complexes (cs @ [c]) =
      (if sort c \<notin> sort ` set cs then unique_complexes cs @ [sort c] else unique_complexes cs)"
    using set_unique_complexes [of cs] by (simp add: unique_complexes_def unique_loop_snoc)
  then show ?case using snoc.IH idx mp by simp
qed

lemma unique_complexes_first_occurrence:
  "unique_complexes cs =
     map (\<lambda>i. sort (cs ! i))
       (filter (\<lambda>i. \<forall>j<i. mset (cs ! j) \<noteq> mset (cs ! i)) [0..<length cs])"
proof -
  have "filter (\<lambda>i. sort (cs ! i) \<notin> sort ` set (take i cs)) [0..<length cs]
      = filter (\<lambda>i. \<forall>j<i. mset (cs ! j) \<noteq> mset (cs ! i)) [0..<length cs]"
    by (rule filter_cong) (auto simp: seen_before_iff)
  then show ?thesis by (simp add: unique_complexes_indices)
qed

lemma count_list_distinct: "distinct xs \<Longrightarrow> x \<in> set xs \<Longrightarrow> count_list xs x = 1"
  by (induction xs) auto

lemma unique_complexes_idem: "unique_complexes (unique_complexes cs) = unique_complexes cs"
proof -
  have "distinct ([] @ unique_complexes cs)"
    by (simp add: distinct_unique_complexes)
  moreover have "\<forall>u \<in> set (unique_complexes cs). sorted u"
    using sorted_unique_complexes by blast
  ultimately have "unique_loop (unique_complexes cs) [] = [] @ unique_complexes cs"
    by (rule unique_loop_fixed)
  then show ?thesis by (simp add: unique_complexes_def [of "unique_complexes cs"])
qed

text \<open>
  Claim C3, as amended. The collection has no repeated entry; it consists, in input order,
  of the lexicographically sorted forms of those input complexes that no earlier input
  complex equals as a multiset (same members with the same multiplicities, in any order);
  and two input complexes that are equal as multisets are represented by one and the same
  entry, which occurs exactly once.
\<close>

theorem deduplicator_first_occurrence:
  "distinct (unique_complexes cs) \<and>
   unique_complexes cs =
     map (\<lambda>i. sort (cs ! i))
       (filter (\<lambda>i. \<forall>j<i. mset (cs ! j) \<noteq> mset (cs ! i)) [0..<length cs]) \<and>
   (\<forall>c1 \<in> set cs. \<forall>c2 \<in> set cs. mset c1 = mset c2 \<longrightarrow>
      sort c1 = sort c2 \<and> count_list (unique_complexes cs) (sort c1) = 1)"
proof (intro conjI ballI impI)
  show "distinct (unique_complexes cs)" by (rule distinct_unique_complexes)
  show "unique_complexes cs =
     map (\<lambda>i. sort (cs ! i))
       (filter (\<lambda>i. \<forall>j<i. mset (cs ! j) \<noteq> mset (cs ! i)) [0..<length cs])"
    by (rule unique_complexes_first_occurrence)
next
  fix c1 c2 assume "c1 \<in> set cs" "c2 \<in> set cs" "mset c1 = mset c2"
  then show "sort c1 = sort c2" by (simp add: sort_eq_iff_mset)
next
  fix c1 c2 assume "c1 \<in> set cs"
  then have "sort c1 \<in> set (unique_complexes cs)" by (simp add: set_unique_complexes)
  then show "count_list (unique_complexes cs) (sort c1) = 1"
    by (simp add: count_list_distinct distinct_unique_complexes)
qed

theorem deduplicator_first_occurrence_witness:
  "mset [''PP_0002'', ''PP_0001''] = mset [''PP_0001'', ''PP_0002''] \<and>
   sort [''PP_0002'', ''PP_0001''] = sort [''PP_0001'', ''PP_0002''] \<and>
   count_list
     (unique_complexes
        [[''PP_0002'', ''PP_0001''], [''PP_0001'', ''PP_0002''], [''PP_0003'', ''PP_0004'']])
     (sort [''PP_0002'', ''PP_0001'']) = 1 \<and>
   unique_complexes
     [[''PP_0002'', ''PP_0001''], [''PP_0001'', ''PP_0002''], [''PP_0003'', ''PP_0004'']] =
     [[''PP_0001'', ''PP_0002''], [''PP_0003'', ''PP_0004'']]"
proof -
  let ?cs = "[[''PP_0002'', ''PP_0001''], [''PP_0001'', ''PP_0002''], [''PP_0003'', ''PP_0004'']]"
  have m: "mset [''PP_0002'', ''PP_0001''] = mset [''PP_0001'', ''PP_0002'']" by simp
  have "\<forall>c1 \<in> set ?cs. \<forall>c2 \<in> set ?cs. mset c1 = mset c2 \<longrightarrow>
      sort c1 = sort c2 \<and> count_list (unique_complexes ?cs) (sort c1) = 1"
    using deduplicator_first_occurrence [of ?cs] by blast
  then have "sort [''PP_0002'', ''PP_0001''] = sort [''PP_0001'', ''PP_0002''] \<and>
      count_list (unique_complexes ?cs) (sort [''PP_0002'', ''PP_0001'']) = 1"
    using m by simp
  moreover have "unique_complexes ?cs = [[''PP_0001'', ''PP_0002''], [''PP_0003'', ''PP_0004'']]"
    by code_simp
  ultimately show ?thesis using m by blast
qed

text \<open>
  Claim C3 as stated speaks of complexes with the same membership set. The complexes
  \<open>[PP_0001, PP_0001, PP_0002]\<close> and \<open>[PP_0001, PP_0002]\<close> (the rules
  \<open>PP_0001 and PP_0001 and PP_0002\<close> and \<open>PP_0001 and PP_0002\<close> produce them) have the
  same set of members and are kept as two entries.
\<close>

theorem deduplicator_same_set_counterexample:
  "set [''PP_0001'', ''PP_0001'', ''PP_0002''] = set [''PP_0001'', ''PP_0002''] \<and>
   unique_complexes [[''PP_0001'', ''PP_0001'', ''PP_0002''], [''PP_0001'', ''PP_0002'']] =
     [[''PP_0001'', ''PP_0001'', ''PP_0002''], [''PP_0001'', ''PP_0002'']] \<and>
   part1 [''PP_0001 and PP_0001 and PP_0002'', ''PP_0001 and PP_0002''] =
     Inr ([], [[''PP_0001'', ''PP_0001'', ''PP_0002''], [''PP_0001'', ''PP_0002'']])"
proof (intro conjI)
  show "set [''PP_0001'', ''PP_0001'', ''PP_0002''] = set [''PP_0001'', ''PP_0002'']"
    by simp
  show "unique_complexes [[''PP_0001'', ''PP_0001'', ''PP_0002''], [''PP_0001'', ''PP_0002'']] =
     [[''PP_0001'', ''PP_0001'', ''PP_0002''], [''PP_0001'', ''PP_0002'']]"
    by code_simp
  show "part1 [''PP_0001 and PP_0001 and PP_0002'', ''PP_0001 and PP_0002''] =
     Inr ([], [[''PP_0001'', ''PP_0001'', ''PP_0002''], [''PP_0001'', ''PP_0002'']])"
    by code_simp
qed

text \<open>
  Claim C4. The Deduplicator is idempotent: run on its own output, it returns that output.
\<close>

theorem deduplicator_idempotent:
  "unique_complexes (unique_complexes cs) = unique_complexes cs"
  by (rule unique_complexes_idem)

section \<open>Data purification and the final collection\<close>

lemma sort_Nil_iff: "sort c = [] \<longleftrightarrow> c = []"
  by (metis length_sort length_0_conv)

lemma part1_collection:
  "part1 genes = Inr (mons, collection) \<Longrightarrow>
   \<exists>st :: state. collection = unique_complexes (delete_empty (complexes st))"
  by (auto simp: part1_def split: sum.splits)

text \<open>
  Claim C10. Every entry of the final collection is stored in sorted order, so the file
  name \<open>'-'.join(c)\<close> of an entry lists the members in sorted order.
\<close>

theorem final_collection_sorted:
  assumes "part1 genes = Inr (mons, collection)" and "c \<in> set collection"
  shows "sorted c \<and> join_dash c = join_dash (sort c)"
proof -
  obtain st :: state where "collection = unique_complexes (delete_empty (complexes st))"
    using part1_collection [OF assms(1)] by blast
  then have "sorted c" using assms(2) by (simp add: sorted_unique_complexes)
  then show ?thesis by (simp add: sort_key_id_if_sorted)
qed

theorem final_collection_sorted_witness:
  "part1 [''PP_0002 and PP_0001''] = Inr ([], [[''PP_0001'', ''PP_0002'']]) \<and>
   sorted [''PP_0001'', ''PP_0002''] \<and>
   join_dash [''PP_0001'', ''PP_0002''] = join_dash (sort [''PP_0001'', ''PP_0002'']) \<and>
   join_dash [''PP_0001'', ''PP_0002''] = ''PP_0001-PP_0002''"
proof -
  have run: "part1 [''PP_0002 and PP_0001''] = Inr ([], [[''PP_0001'', ''PP_0002'']])"
    by code_simp
  have mem: "[''PP_0001'', ''PP_0002''] \<in> set [[''PP_0001'', ''PP_0002'']]" by simp
  have name: "join_dash [''PP_0001'', ''PP_0002''] = ''PP_0001-PP_0002''" by simp
  show ?thesis using final_collection_sorted [OF run mem] run name by blast
qed

text \<open>
  Claim C6, as amended. Every entry of the final collection has at least one member: the
  purification deletes the empty lists and nothing else.
\<close>

theorem final_collection_nonempty:
  assumes "part1 genes = Inr (mons, collection)" and "c \<in> set collection"
  shows "c \<noteq> [] \<and> 1 \<le> length c"
proof -
  obtain st :: state where "collection = unique_complexes (delete_empty (complexes st))"
    using part1_collection [OF assms(1)] by blast
  then obtain c' where "c' \<in> set (delete_empty (complexes st))" and "c = sort c'"
    using assms(2) by (auto simp: set_unique_complexes)
  then have "c \<noteq> []" by (simp add: delete_empty_def sort_Nil_iff)
  then show ?thesis by (cases c) simp_all
qed

theorem final_collection_nonempty_witness:
  "part1 [''PP_0001 and PP_002''] = Inr ([], [[''PP_0001'']]) \<and>
   [''PP_0001''] \<noteq> [] \<and> 1 \<le> length [''PP_0001'']"
proof -
  have run: "part1 [''PP_0001 and PP_002''] = Inr ([], [[''PP_0001'']])"
    by code_simp
  have mem: "[''PP_0001''] \<in> set [[''PP_0001'']]" by simp
  show ?thesis using final_collection_nonempty [OF run mem] run by blast
qed

text \<open>
  Claim C6 as stated asks for two distinct members in every entry. The rule
  \<open>PP_0001 and PP_002\<close>, whose second operand is not an identifier, leaves an entry with
  one member, and the rule \<open>PP_0001 and PP_0001\<close> leaves an entry whose two members are
  the same identifier.
\<close>

theorem final_collection_two_members_counterexample:
  "part1 [''PP_0001 and PP_002''] = Inr ([], [[''PP_0001'']]) \<and>
   length [''PP_0001''] < 2 \<and>
   part1 [''PP_0001 and PP_0001''] = Inr ([], [[''PP_0001'', ''PP_0001'']]) \<and>
   card (set [''PP_0001'', ''PP_0001'']) < 2"
proof (intro conjI)
  show "part1 [''PP_0001 and PP_002''] = Inr ([], [[''PP_0001'']])"
    by code_simp
  show "part1 [''PP_0001 and PP_0001''] = Inr ([], [[''PP_0001'', ''PP_0001'']])"
    by code_simp
qed simp_all

section \<open>The rule classifier\<close>

text \<open>
  Claim C2. A rule that contains \<open>and\<close> and does not contain \<open>or\<close> adds exactly one
  complex, the identifier matches of the rule in match order (each of them an identifier),
  and no monomer: the monomer loop skips the rule, and the complex loop leaves the monomer
  list as it is.
\<close>

theorem simple_complex:
  assumes "contains ''and'' ID" and "\<not> contains ''or'' ID"
  shows "classify_rule ID st = Inr (st\<lparr>complexes := complexes st @ [re_findall ID]\<rparr>) \<and>
         list_all is_identifier (re_findall ID) \<and>
         monomer_rule ID mons = mons \<and>
         part1 [ID] = Inr ([], unique_complexes (delete_empty [re_findall ID]))"
  using assms
  by (simp add: classify_rule_def monomer_rule_def part1_def initial_state_def
      re_findall_identifiers)

theorem simple_complex_witness:
  "contains ''and'' ''PP_0001 and PP_0002'' \<and> \<not> contains ''or'' ''PP_0001 and PP_0002'' \<and>
   classify_rule ''PP_0001 and PP_0002'' (initial_state [''PP_0003'']) =
     Inr ((initial_state [''PP_0003''])\<lparr>complexes := [[''PP_0001'', ''PP_0002'']]\<rparr>) \<and>
   monomer_rule ''PP_0001 and PP_0002'' [''PP_0003''] = [''PP_0003'']"
proof -
  have h1: "contains ''and'' ''PP_0001 and PP_0002''" by code_simp
  have h2: "\<not> contains ''or'' ''PP_0001 and PP_0002''" by code_simp
  have f: "re_findall ''PP_0001 and PP_0002'' = [''PP_0001'', ''PP_0002'']" by code_simp
  have c: "complexes (initial_state [''PP_0003'']) = []" by (simp add: initial_state_def)
  show ?thesis
    using simple_complex [OF h1 h2, of "initial_state [''PP_0003'']" "[''PP_0003'']"] h1 h2 f c
    by simp
qed

section \<open>The cartesian-product path of Opt 4\<close>

lemma extend_product_no_axes: "extend_product cs [] flat = cs @ [flat]"
  by (simp add: extend_product_def)

lemma opt4_inner_complexes:
  "\<forall>e \<in> set split2. \<not> contains ''or'' e \<Longrightarrow>
   complexes (opt4_inner split2 st) = complexes st @ map re_findall split2"
  by (induction split2 arbitrary: st) (simp_all add: Let_def extend_product_no_axes)

lemma opt4_inner_variable_kept:
  "\<forall>e \<in> set split2. \<not> contains ''or'' e \<Longrightarrow> variable_prot st = Some [] \<Longrightarrow>
   variable_prot (opt4_inner split2 st) = Some []"
  by (induction split2 arbitrary: st) (simp_all add: Let_def)

lemma opt4_inner_variable:
  assumes "\<forall>e \<in> set split2. \<not> contains ''or'' e" and "split2 \<noteq> []"
  shows "variable_prot (opt4_inner split2 st) = Some []"
proof (cases split2)
  case Nil
  then show ?thesis using assms(2) by simp
next
  case (Cons e es)
  then have "\<not> contains ''or'' e" "\<forall>x \<in> set es. \<not> contains ''or'' x"
    using assms(1) by simp_all
  then show ?thesis
    using Cons by (simp add: Let_def opt4_inner_variable_kept)
qed

text \<open>
  What the inner loop of Opt 4 (lines 226 to 246) does. The element is split on \<open>or\<close>,
  so no piece contains \<open>or\<close> and the branch of lines 238 to 240 is never taken; both
  lists are emptied for every piece. The product is therefore always taken over no axes,
  and every piece gets a complex of its own, its identifier matches.
\<close>

lemma opt4_inner_pieces:
  "complexes (opt4_inner (str_split ''or'' element) st) =
     complexes st @ map re_findall (str_split ''or'' element) \<and>
   variable_prot (opt4_inner (str_split ''or'' element) st) = Some []"
proof -
  have no_or: "\<forall>e \<in> set (str_split ''or'' element). \<not> contains ''or'' e"
    using str_split_no_sep [of "''or''" _ element] by blast
  have "str_split ''or'' element \<noteq> []"
    by (simp add: str_split_def str_split_from_not_Nil)
  then show ?thesis
    using no_or by (simp add: opt4_inner_complexes opt4_inner_variable)
qed

text \<open>
  Claim C5. The claim has the product path produce no complex when there is no variable
  axis. Opt 4 breaks it: on the rule \<open>PP_0003 or (PP_0004 and (PP_0005 or PP_0006))\<close> its
  inner loop runs the product with no axis for each of the pieces \<open>PP_0004 and (PP_0005\<close>
  and \<open>PP_0006))\<close>, and each run appends a complex, so that the alternatives of the group
  end up as \<open>{PP_0004, PP_0005}\<close> and \<open>{PP_0006}\<close>. Opt 3 treats the same group as
  lines 171 to 191 do, with \<open>(PP_0005 or PP_0006)\<close> as an axis, and gives
  \<open>{PP_0004, PP_0005}\<close> and \<open>{PP_0004, PP_0006}\<close>. The last run is the shape of the
  comment of line 198, \<open>(A and B) or C or (D and (E or F))\<close>.
\<close>

theorem opt4_product_without_axes:
  "str_split ''or'' ''PP_0004 and (PP_0005 or PP_0006))'' =
     [''PP_0004 and (PP_0005 '', '' PP_0006))''] \<and>
   variable_prot (opt4_inner [''PP_0004 and (PP_0005 '', '' PP_0006))''] (initial_state [])) =
     Some [] \<and>
   complexes (opt4_inner [''PP_0004 and (PP_0005 '', '' PP_0006))''] (initial_state [])) =
     [[''PP_0004'', ''PP_0005''], [''PP_0006'']] \<and>
   part1 [''PP_0003 or (PP_0004 and (PP_0005 or PP_0006))''] =
     Inr ([''PP_0003''], [[''PP_0004'', ''PP_0005''], [''PP_0006'']]) \<and>
   part1 [''(PP_0001 and PP_0002) or (PP_0004 and (PP_0005 or PP_0006))''] =
     Inr ([], [[''PP_0001'', ''PP_0002''], [''PP_0004'', ''PP_0005''],
               [''PP_0004'', ''PP_0006'']]) \<and>
   part1 [''(PP_0001 and PP_0002) or PP_0003 or (PP_0004 and (PP_0005 or PP_0006))''] =
     Inr ([''PP_0003''], [[''PP_0001'', ''PP_0002''], [''PP_0004'', ''PP_0005''],
                          [''PP_0006'']])"
proof (intro conjI)
  show "str_split ''or'' ''PP_0004 and (PP_0005 or PP_0006))'' =
     [''PP_0004 and (PP_0005 '', '' PP_0006))'']"
    by code_simp
  show "variable_prot (opt4_inner [''PP_0004 and (PP_0005 '', '' PP_0006))''] (initial_state [])) =
     Some []"
    by code_simp
  show "complexes (opt4_inner [''PP_0004 and (PP_0005 '', '' PP_0006))''] (initial_state [])) =
     [[''PP_0004'', ''PP_0005''], [''PP_0006'']]"
    by code_simp
  show "part1 [''PP_0003 or (PP_0004 and (PP_0005 or PP_0006))''] =
     Inr ([''PP_0003''], [[''PP_0004'', ''PP_0005''], [''PP_0006'']])"
    by code_simp
  show "part1 [''(PP_0001 and PP_0002) or (PP_0004 and (PP_0005 or PP_0006))''] =
     Inr ([], [[''PP_0001'', ''PP_0002''], [''PP_0004'', ''PP_0005''],
               [''PP_0004'', ''PP_0006'']])"
    by code_simp
  show "part1 [''(PP_0001 and PP_0002) or PP_0003 or (PP_0004 and (PP_0005 or PP_0006))''] =
     Inr ([''PP_0003''], [[''PP_0001'', ''PP_0002''], [''PP_0004'', ''PP_0005''],
                          [''PP_0006'']])"
    by code_simp
qed

section \<open>Opt 2: the fixed-plus-variable complex\<close>

text \<open>The tuples of the product are exactly the choices of one element per axis.\<close>

lemma itertools_product_tuples:
  "t \<in> set (itertools_product axes) \<longleftrightarrow> list_all2 (\<lambda>x axis. x \<in> set axis) t axes"
proof (induction axes arbitrary: t)
  case Nil
  then show ?case by simp
next
  case (Cons axis axes)
  show ?case
  proof (cases t)
    case Nil
    then show ?thesis by auto
  next
    case (Cons x t')
    then show ?thesis using Cons.IH [of t'] by auto
  qed
qed

lemma length_itertools_product:
  "length (itertools_product axes) = prod_list (map length axes)"
proof (induction axes)
  case Nil
  then show ?case by simp
next
  case (Cons axis axes)
  have "length (concat (map (\<lambda>x. map (\<lambda>t. x # t) (itertools_product axes)) axis))
      = length axis * length (itertools_product axes)"
    by (induction axis) simp_all
  then show ?case using Cons.IH by simp
qed

text \<open>What the loop of lines 133 to 146 leaves in the three variables.\<close>

lemma opt2_loop_result:
  "opt2_loop segs (perma, variable, flat) =
     (perma @ map re_findall (filter (\<lambda>seg. \<not> contains ''or'' seg) segs),
      variable @ map re_findall (filter (contains ''or'') segs),
      if segs = [] then flat
      else Some (concat (perma @ map re_findall (filter (\<lambda>seg. \<not> contains ''or'' seg) segs))))"
proof (induction segs arbitrary: perma variable flat)
  case Nil
  then show ?case by simp
next
  case (Cons seg segs)
  show ?case
    by (cases "segs = []") (simp_all add: Let_def Cons.IH)
qed

lemma opt2_result:
  "opt2 ID st =
     Inr (st\<lparr>complexes := complexes st @ fixed_plus_variable ID,
             perma_prot := Some (map re_findall
               (filter (\<lambda>seg. \<not> contains ''or'' seg) (str_split '' and '' ID))),
             variable_prot := Some (variable_axes ID),
             perma_flat := Some (fixed_matches ID)\<rparr>)"
proof -
  have "str_split '' and '' ID \<noteq> []"
    by (simp add: str_split_def str_split_from_not_Nil)
  then show ?thesis
    by (simp add: opt2_def opt2_loop_result fixed_plus_variable_def variable_axes_def
        fixed_matches_def extend_product_def)
qed

lemma contains_longer:
  "contains (xs @ sub @ ys) s \<Longrightarrow> contains sub s"
proof -
  assume "contains (xs @ sub @ ys) s"
  then obtain a b where "s = a @ (xs @ sub @ ys) @ b" by (auto simp: contains_iff)
  then have "s = (a @ xs) @ sub @ (ys @ b)" by simp
  then show ?thesis unfolding contains_iff by blast
qed

lemma classify_opt2:
  assumes "contains ''and'' ID" and "contains '' or '' ID"
    and "\<not> contains '') or'' ID" and "\<not> contains ''or ('' ID"
  shows "classify_rule ID st = opt2 ID st"
proof -
  have "contains ''or'' ID"
    using contains_longer [of "'' ''" "''or''" "'' ''" ID] assms(2) by simp
  then show ?thesis using assms by (simp add: classify_rule_def)
qed

subsection \<open>Rules built from identifiers\<close>

text \<open>An identifier consists of the letters \<open>P\<close>, \<open>p\<close>, \<open>W\<close>, the underscore and digits.\<close>

lemma in_set_take_drop: "c \<in> set A \<Longrightarrow> c \<in> set (take n A) \<or> c \<in> set (drop n A)"
  by (metis Un_iff append_take_drop_id set_append)

lemma identifier_chars:
  assumes "is_identifier A" and "c \<in> set A"
  shows "c = CHR ''P'' \<or> c = CHR ''p'' \<or> c = CHR ''W'' \<or> c = CHR ''_'' \<or> is_digit c"
proof -
  from assms(1) consider
      (PP) "take 3 A = ''PP_''" "list_all is_digit (drop 3 A)"
    | (pWW0) "take 5 A = ''pWW0_''" "list_all is_digit (drop 5 A)"
    unfolding is_identifier_def by blast
  then show ?thesis
  proof cases
    case PP
    from in_set_take_drop [OF assms(2), of 3] show ?thesis
    proof
      assume "c \<in> set (take 3 A)"
      then have "c \<in> set ''PP_''" by (simp only: PP(1))
      then show ?thesis by auto
    next
      assume "c \<in> set (drop 3 A)"
      then have "is_digit c" using PP(2) by (simp add: list_all_iff)
      then show ?thesis by simp
    qed
  next
    case pWW0
    from in_set_take_drop [OF assms(2), of 5] show ?thesis
    proof
      assume "c \<in> set (take 5 A)"
      then have "c \<in> set ''pWW0_''" by (simp only: pWW0(1))
      then show ?thesis by (auto simp: is_digit_def)
    next
      assume "c \<in> set (drop 5 A)"
      then have "is_digit c" using pWW0(2) by (simp add: list_all_iff)
      then show ?thesis by simp
    qed
  qed
qed

lemma identifier_not_Nil: "is_identifier A \<Longrightarrow> A \<noteq> []"
  unfolding is_identifier_def by auto

lemma identifier_free_of:
  assumes "is_identifier A"
  shows "CHR '' '' \<notin> set A" "CHR ''('' \<notin> set A" "CHR '')'' \<notin> set A"
    "CHR ''o'' \<notin> set A" "CHR ''a'' \<notin> set A"
proof -
  show "CHR '' '' \<notin> set A"
    using identifier_chars [OF assms, of "CHR '' ''"] by (auto simp: is_digit_def)
  show "CHR ''('' \<notin> set A"
    using identifier_chars [OF assms, of "CHR ''(''"] by (auto simp: is_digit_def)
  show "CHR '')'' \<notin> set A"
    using identifier_chars [OF assms, of "CHR '')''"] by (auto simp: is_digit_def)
  show "CHR ''o'' \<notin> set A"
    using identifier_chars [OF assms, of "CHR ''o''"] by (auto simp: is_digit_def)
  show "CHR ''a'' \<notin> set A"
    using identifier_chars [OF assms, of "CHR ''a''"] by (auto simp: is_digit_def)
qed

text \<open>Scanning over a stretch that does not hold the first character of the pattern.\<close>

lemma startswith_other:
  "xs \<noteq> [] \<Longrightarrow> c \<notin> set xs \<Longrightarrow> startswith (c # p) (xs @ ys) = False"
  by (cases xs) auto

lemma contains_skip:
  "c \<notin> set xs \<Longrightarrow> contains (c # sub) (xs @ ys) = contains (c # sub) ys"
  by (induction xs) auto

lemma contains_none:
  "c \<notin> set xs \<Longrightarrow> contains (c # sub) xs = False"
  by (induction xs) auto

lemma str_split_from_skip:
  "c \<notin> set xs \<Longrightarrow>
   str_split_from (c # sep) cur (xs @ ys) = str_split_from (c # sep) (cur @ xs) ys"
  by (induction xs arbitrary: cur) auto

lemma str_split_from_last:
  "c \<notin> set xs \<Longrightarrow> str_split_from (c # sep) cur xs = [cur @ xs]"
  by (induction xs arbitrary: cur) auto

text \<open>The two forms of an identifier, written out.\<close>

lemma identifier_cases:
  assumes "is_identifier A"
  obtains (PP) ds where "A = ''PP_'' @ ds" "length ds = 4" "list_all is_digit ds"
    | (pWW0) ds where "A = ''pWW0_'' @ ds" "ds \<noteq> []" "list_all is_digit ds"
proof -
  from assms consider
      (a) "take 3 A = ''PP_''" "length A = 7" "list_all is_digit (drop 3 A)"
    | (b) "take 5 A = ''pWW0_''" "5 < length A" "list_all is_digit (drop 5 A)"
    unfolding is_identifier_def by blast
  then show thesis
  proof cases
    case a
    have "take 3 A @ drop 3 A = A" by (rule append_take_drop_id)
    then have "A = ''PP_'' @ drop 3 A" by (simp only: a(1))
    moreover have "length (drop 3 A) = 4" using a(2) by simp
    ultimately show thesis using a(3) by (rule PP)
  next
    case b
    have "take 5 A @ drop 5 A = A" by (rule append_take_drop_id)
    then have "A = ''pWW0_'' @ drop 5 A" by (simp only: b(1))
    moreover have "drop 5 A \<noteq> []" using b(2) by simp
    ultimately show thesis using b(3) by (rule pWW0)
  qed
qed

text \<open>The pattern matches an identifier in full when no digit follows it.\<close>

lemma takeWhile_digits:
  assumes "list_all is_digit ds" and "ys = [] \<or> \<not> is_digit (hd ys)"
  shows "takeWhile is_digit (ds @ ys) = ds"
proof -
  have "takeWhile is_digit ys = []" using assms(2) by (cases ys) auto
  moreover have "\<And>x. x \<in> set ds \<Longrightarrow> is_digit x" using assms(1) by (simp add: list_all_iff)
  ultimately show ?thesis by (simp add: takeWhile_append2)
qed

lemma match_id_identifier:
  assumes "is_identifier A" and "ys = [] \<or> \<not> is_digit (hd ys)"
  shows "match_id (A @ ys) = Some (length A)"
  using assms(1)
proof (cases rule: identifier_cases)
  case (PP ds)
  have "match_PP (''PP_'' @ ds @ ys) = Some 7"
    using PP(2,3) by (simp add: match_PP_def)
  then show ?thesis using PP(1,2) by (simp add: match_id_def)
next
  case (pWW0 ds)
  have "match_PP (''pWW0_'' @ ds @ ys) = None"
    by (simp add: match_PP_def)
  moreover have "match_pWW0 (''pWW0_'' @ ds @ ys) = Some (5 + length ds)"
    using pWW0(2) takeWhile_digits [OF pWW0(3) assms(2)] by (simp add: match_pWW0_def)
  ultimately show ?thesis using pWW0(1) by (simp add: match_id_def)
qed

lemma re_findall_identifier:
  assumes "is_identifier A" and "ys = [] \<or> \<not> is_digit (hd ys)"
  shows "re_findall (A @ ys) = A # re_findall ys"
proof -
  obtain c cs where A: "A = c # cs"
    using identifier_not_Nil [OF assms(1)] by (cases A) auto
  have m: "match_id (c # cs @ ys) = Some (length (c # cs))"
    using match_id_identifier [OF assms] by (simp only: A append_Cons)
  have "re_findall (c # cs @ ys) =
      take (length (c # cs)) (c # cs @ ys) # re_findall (drop (length (c # cs)) (c # cs @ ys))"
    by (simp only: re_findall.simps m option.case)
  also have "take (length (c # cs)) (c # cs @ ys) = c # cs" by simp
  also have "drop (length (c # cs)) (c # cs @ ys) = ys" by simp
  finally show ?thesis by (simp only: A append_Cons)
qed

lemma re_findall_other:
  "c \<noteq> CHR ''P'' \<Longrightarrow> c \<noteq> CHR ''p'' \<Longrightarrow> re_findall (c # cs) = re_findall cs"
  by (simp add: match_id_def match_PP_def match_pWW0_def)

lemma re_findall_identifier_alone: "is_identifier A \<Longrightarrow> re_findall A = [A]"
  using re_findall_identifier [of A "[]"] by simp

text \<open>The rule \<open>(A or B) and C\<close> over three identifiers.\<close>

lemma example_rule_guard:
  assumes "is_identifier A" "is_identifier B" "is_identifier C"
  shows "contains ''and'' (''('' @ A @ '' or '' @ B @ '') and '' @ C)"
    and "contains '' or '' (''('' @ A @ '' or '' @ B @ '') and '' @ C)"
    and "\<not> contains '') or'' (''('' @ A @ '' or '' @ B @ '') and '' @ C)"
    and "\<not> contains ''or ('' (''('' @ A @ '' or '' @ B @ '') and '' @ C)"
proof -
  have "''('' @ A @ '' or '' @ B @ '') and '' @ C =
        (''('' @ A @ '' or '' @ B @ '') '') @ ''and'' @ ('' '' @ C)" by simp
  then show "contains ''and'' (''('' @ A @ '' or '' @ B @ '') and '' @ C)"
    unfolding contains_iff by blast
  have "''('' @ A @ '' or '' @ B @ '') and '' @ C =
        (''('' @ A) @ '' or '' @ (B @ '') and '' @ C)" by simp
  then show "contains '' or '' (''('' @ A @ '' or '' @ B @ '') and '' @ C)"
    unfolding contains_iff by blast
  show "\<not> contains '') or'' (''('' @ A @ '' or '' @ B @ '') and '' @ C)"
    using identifier_free_of(3) [OF assms(1)] identifier_free_of(3) [OF assms(2)]
      identifier_free_of(3) [OF assms(3)]
    by (simp add: contains_skip contains_none)
  show "\<not> contains ''or ('' (''('' @ A @ '' or '' @ B @ '') and '' @ C)"
    using identifier_free_of(4) [OF assms(1)] identifier_free_of(4) [OF assms(2)]
      identifier_free_of(4) [OF assms(3)] identifier_free_of(2) [OF assms(2)]
      identifier_not_Nil [OF assms(2)]
    by (simp add: contains_skip contains_none startswith_other)
qed

lemma example_rule_split:
  assumes "is_identifier A" "is_identifier B" "is_identifier C"
  shows "str_split '' and '' (''('' @ A @ '' or '' @ B @ '') and '' @ C) =
         [''('' @ A @ '' or '' @ B @ '')'', C]"
  using identifier_free_of(1) [OF assms(1)] identifier_free_of(1) [OF assms(2)]
    identifier_free_of(1) [OF assms(3)] identifier_free_of(5) [OF assms(2)]
    identifier_not_Nil [OF assms(2)]
  by (simp add: str_split_def str_split_from_skip str_split_from_last startswith_other)

lemma example_rule_segments:
  assumes "is_identifier A" "is_identifier B" "is_identifier C"
  shows "contains ''or'' (''('' @ A @ '' or '' @ B @ '')'')"
    and "\<not> contains ''or'' C"
    and "re_findall (''('' @ A @ '' or '' @ B @ '')'') = [A, B]"
    and "re_findall C = [C]"
proof -
  have "''('' @ A @ '' or '' @ B @ '')'' = (''('' @ A @ '' '') @ ''or'' @ ('' '' @ B @ '')'')"
    by simp
  then show "contains ''or'' (''('' @ A @ '' or '' @ B @ '')'')"
    unfolding contains_iff by blast
  show "\<not> contains ''or'' C"
    using identifier_free_of(4) [OF assms(3)] by (simp add: contains_none)
  show "re_findall C = [C]"
    using assms(3) by (rule re_findall_identifier_alone)
  have "re_findall (B @ '')'') = [B]"
    using assms(2) by (simp add: re_findall_identifier re_findall_other is_digit_def
        del: re_findall.simps(2))
  moreover have "re_findall (A @ '' or '' @ B @ '')'') = A # re_findall ('' or '' @ B @ '')'')"
    using assms(1) by (simp add: re_findall_identifier is_digit_def del: re_findall.simps(2))
  moreover have "re_findall ('' or '' @ B @ '')'') = re_findall (B @ '')'')"
    by (simp add: re_findall_other del: re_findall.simps(2))
  moreover have "re_findall (''('' @ A @ '' or '' @ B @ '')'') = re_findall (A @ '' or '' @ B @ '')'')"
    by (simp add: re_findall_other del: re_findall.simps(2))
  ultimately show "re_findall (''('' @ A @ '' or '' @ B @ '')'') = [A, B]"
    by (simp only:)
qed

lemma example_rule_complexes:
  assumes "is_identifier A" "is_identifier B" "is_identifier C"
  shows "variable_axes (''('' @ A @ '' or '' @ B @ '') and '' @ C) = [[A, B]]"
    and "fixed_matches (''('' @ A @ '' or '' @ B @ '') and '' @ C) = [C]"
    and "fixed_plus_variable (''('' @ A @ '' or '' @ B @ '') and '' @ C) = [[A, C], [B, C]]"
proof -
  note seg = example_rule_segments [OF assms]
  show v: "variable_axes (''('' @ A @ '' or '' @ B @ '') and '' @ C) = [[A, B]]"
    unfolding variable_axes_def example_rule_split [OF assms] using seg by simp
  show f: "fixed_matches (''('' @ A @ '' or '' @ B @ '') and '' @ C) = [C]"
    unfolding fixed_matches_def example_rule_split [OF assms] using seg by simp
  show "fixed_plus_variable (''('' @ A @ '' or '' @ B @ '') and '' @ C) = [[A, C], [B, C]]"
    unfolding fixed_plus_variable_def v f by simp
qed

lemma monomer_rule_skips: "contains ''and'' ID \<Longrightarrow> monomer_rule ID mons = mons"
  by (simp add: monomer_rule_def)

lemma length_fixed_plus_variable:
  "length (fixed_plus_variable ID) = prod_list (map length (variable_axes ID))"
  by (simp add: fixed_plus_variable_def length_itertools_product)

text \<open>
  Claim C1. A rule that contains \<open>and\<close> and \<open>' or '\<close> (the operator as line 127 tests
  for it) and neither \<open>') or'\<close> nor \<open>'or ('\<close> takes Opt 2. The complexes it adds are those of the
  specification: the rule is split on \<open>' and '\<close>, the segments that contain \<open>or\<close> are the
  axes, the others are fixed, and there is one complex per tuple of the cartesian product,
  the tuple followed by the flattened fixed matches. The tuples are exactly the choices of
  one match per axis, and their number is the product of the lengths of the axes. The rule
  adds no monomer. For identifiers \<open>A\<close>, \<open>B\<close>, \<open>C\<close> the rule \<open>(A or B) and C\<close> adds
  the two complexes \<open>[A, C]\<close> and \<open>[B, C]\<close>.
\<close>

theorem fixed_plus_variable_complexes:
  "(contains ''and'' ID \<and> contains '' or '' ID \<and>
    \<not> contains '') or'' ID \<and> \<not> contains ''or ('' ID \<longrightarrow>
      classify_rule ID st =
        Inr (st\<lparr>complexes := complexes st @ fixed_plus_variable ID,
                perma_prot := Some (map re_findall
                  (filter (\<lambda>seg. \<not> contains ''or'' seg) (str_split '' and '' ID))),
                variable_prot := Some (variable_axes ID),
                perma_flat := Some (fixed_matches ID)\<rparr>) \<and>
      monomer_rule ID mons = mons) \<and>
   (t \<in> set (itertools_product axes) \<longleftrightarrow> list_all2 (\<lambda>x axis. x \<in> set axis) t axes) \<and>
   length (fixed_plus_variable ID) = prod_list (map length (variable_axes ID)) \<and>
   (is_identifier A \<and> is_identifier B \<and> is_identifier C \<longrightarrow>
      classify_rule (''('' @ A @ '' or '' @ B @ '') and '' @ C) st =
        Inr (st\<lparr>complexes := complexes st @ [[A, C], [B, C]],
                perma_prot := Some [[C]],
                variable_prot := Some [[A, B]],
                perma_flat := Some [C]\<rparr>) \<and>
      monomer_rule (''('' @ A @ '' or '' @ B @ '') and '' @ C) mons = mons)"
proof (intro conjI impI)
  assume g: "contains ''and'' ID \<and> contains '' or '' ID \<and>
    \<not> contains '') or'' ID \<and> \<not> contains ''or ('' ID"
  then have "classify_rule ID st = opt2 ID st" by (simp add: classify_opt2)
  then show "classify_rule ID st =
        Inr (st\<lparr>complexes := complexes st @ fixed_plus_variable ID,
                perma_prot := Some (map re_findall
                  (filter (\<lambda>seg. \<not> contains ''or'' seg) (str_split '' and '' ID))),
                variable_prot := Some (variable_axes ID),
                perma_flat := Some (fixed_matches ID)\<rparr>)"
    by (simp only: opt2_result)
  show "monomer_rule ID mons = mons" using g by (simp add: monomer_rule_skips)
next
  show "t \<in> set (itertools_product axes) \<longleftrightarrow> list_all2 (\<lambda>x axis. x \<in> set axis) t axes"
    by (rule itertools_product_tuples)
  show "length (fixed_plus_variable ID) = prod_list (map length (variable_axes ID))"
    by (rule length_fixed_plus_variable)
next
  assume "is_identifier A \<and> is_identifier B \<and> is_identifier C"
  then have ids: "is_identifier A" "is_identifier B" "is_identifier C" by simp_all
  let ?ID = "''('' @ A @ '' or '' @ B @ '') and '' @ C"
  note guard = example_rule_guard [OF ids]
  have "classify_rule ?ID st = opt2 ?ID st"
    using guard by (rule classify_opt2)
  moreover have "map re_findall (filter (\<lambda>seg. \<not> contains ''or'' seg) (str_split '' and '' ?ID))
      = [[C]]"
    unfolding example_rule_split [OF ids] using example_rule_segments [OF ids] by simp
  ultimately show "classify_rule ?ID st =
        Inr (st\<lparr>complexes := complexes st @ [[A, C], [B, C]],
                perma_prot := Some [[C]],
                variable_prot := Some [[A, B]],
                perma_flat := Some [C]\<rparr>)"
    by (simp only: opt2_result example_rule_complexes [OF ids])
  show "monomer_rule ?ID mons = mons"
    using guard(1) by (rule monomer_rule_skips)
qed

theorem fixed_plus_variable_complexes_witness:
  "contains ''and'' ''(PP_0001 or PP_0002) and PP_0003'' \<and>
   contains '' or '' ''(PP_0001 or PP_0002) and PP_0003'' \<and>
   \<not> contains '') or'' ''(PP_0001 or PP_0002) and PP_0003'' \<and>
   \<not> contains ''or ('' ''(PP_0001 or PP_0002) and PP_0003'' \<and>
   is_identifier ''PP_0001'' \<and> is_identifier ''PP_0002'' \<and> is_identifier ''PP_0003'' \<and>
   fixed_plus_variable ''(PP_0001 or PP_0002) and PP_0003'' =
     [[''PP_0001'', ''PP_0003''], [''PP_0002'', ''PP_0003'']] \<and>
   monomer_rule ''(PP_0001 or PP_0002) and PP_0003'' [] = [] \<and>
   classify_rule ''(PP_0001 or PP_0002) and PP_0003'' (initial_state []) =
     Inr ((initial_state [])
           \<lparr>complexes := [[''PP_0001'', ''PP_0003''], [''PP_0002'', ''PP_0003'']],
            perma_prot := Some [[''PP_0003'']],
            variable_prot := Some [[''PP_0001'', ''PP_0002'']],
            perma_flat := Some [''PP_0003'']\<rparr>)"
proof -
  let ?ID = "''(PP_0001 or PP_0002) and PP_0003''"
  have g: "contains ''and'' ?ID \<and> contains '' or '' ?ID \<and>
      \<not> contains '') or'' ?ID \<and> \<not> contains ''or ('' ?ID"
    by code_simp
  have i: "is_identifier ''PP_0001'' \<and> is_identifier ''PP_0002'' \<and> is_identifier ''PP_0003''"
    by (simp add: is_identifier_def is_digit_def)
  have f: "fixed_plus_variable ?ID = [[''PP_0001'', ''PP_0003''], [''PP_0002'', ''PP_0003'']]"
    by code_simp
  have c: "complexes (initial_state []) = []" by (simp add: initial_state_def)
  note T = fixed_plus_variable_complexes [where ID = ?ID and st = "initial_state []"
      and A = "''PP_0001''" and B = "''PP_0002''" and C = "''PP_0003''"]
  from T have "is_identifier ''PP_0001'' \<and> is_identifier ''PP_0002'' \<and> is_identifier ''PP_0003'' \<longrightarrow>
      classify_rule (''('' @ ''PP_0001'' @ '' or '' @ ''PP_0002'' @ '') and '' @ ''PP_0003'')
        (initial_state []) =
        Inr ((initial_state [])
              \<lparr>complexes := complexes (initial_state []) @
                 [[''PP_0001'', ''PP_0003''], [''PP_0002'', ''PP_0003'']],
               perma_prot := Some [[''PP_0003'']],
               variable_prot := Some [[''PP_0001'', ''PP_0002'']],
               perma_flat := Some [''PP_0003'']\<rparr>) \<and>
      monomer_rule (''('' @ ''PP_0001'' @ '' or '' @ ''PP_0002'' @ '') and '' @ ''PP_0003'') [] = []"
    by (rule conjunct2 [THEN conjunct2, THEN conjunct2, of _ _ _ _])
  with i have "classify_rule (''('' @ ''PP_0001'' @ '' or '' @ ''PP_0002'' @ '') and '' @ ''PP_0003'')
        (initial_state []) =
        Inr ((initial_state [])
              \<lparr>complexes := complexes (initial_state []) @
                 [[''PP_0001'', ''PP_0003''], [''PP_0002'', ''PP_0003'']],
               perma_prot := Some [[''PP_0003'']],
               variable_prot := Some [[''PP_0001'', ''PP_0002'']],
               perma_flat := Some [''PP_0003'']\<rparr>)"
    by blast
  then have "classify_rule ?ID (initial_state []) =
     Inr ((initial_state [])
           \<lparr>complexes := [[''PP_0001'', ''PP_0003''], [''PP_0002'', ''PP_0003'']],
            perma_prot := Some [[''PP_0003'']],
            variable_prot := Some [[''PP_0001'', ''PP_0002'']],
            perma_flat := Some [''PP_0003'']\<rparr>)"
    using c by simp
  moreover from T g have "monomer_rule ?ID [] = []" by blast
  ultimately show ?thesis using g i f by (intro conjI) simp_all
qed

section \<open>Every complex consists of identifier matches\<close>

lemma itertools_product_all:
  "list_all (list_all P) axes \<Longrightarrow> list_all (list_all P) (itertools_product axes)"
  by (induction axes) (auto simp: list_all_iff)

lemma extend_product_all:
  "list_all (list_all P) cs \<Longrightarrow> list_all (list_all P) variable \<Longrightarrow> list_all P flat \<Longrightarrow>
   list_all (list_all P) (extend_product cs variable flat)"
  using itertools_product_all [of P variable]
  by (auto simp: extend_product_def list_all_iff)

lemma fixed_plus_variable_identifiers:
  "list_all (list_all is_identifier) (fixed_plus_variable ID)"
proof -
  have "list_all (list_all is_identifier) (variable_axes ID)"
    by (simp add: variable_axes_def list_all_iff re_findall_members)
  then have "list_all (list_all is_identifier) (itertools_product (variable_axes ID))"
    by (rule itertools_product_all)
  moreover have "list_all is_identifier (fixed_matches ID)"
    by (auto simp: fixed_matches_def list_all_iff re_findall_members)
  ultimately show ?thesis
    by (auto simp: fixed_plus_variable_def list_all_iff)
qed

lemma opt3_segments_identifiers:
  "list_all (list_all is_identifier) perma \<Longrightarrow> list_all (list_all is_identifier) variable \<Longrightarrow>
   opt3_segments split2 (perma, variable) = (perma', variable') \<Longrightarrow>
   list_all (list_all is_identifier) perma' \<and> list_all (list_all is_identifier) variable'"
proof (induction split2 arbitrary: perma variable)
  case Nil
  then show ?case by simp
next
  case (Cons element2 split2)
  show ?case
  proof (cases "contains ''or'' element2")
    case True
    then have "opt3_segments split2 (perma, variable @ [re_findall element2]) = (perma', variable')"
      using Cons.prems(3) by simp
    moreover have "list_all (list_all is_identifier) (variable @ [re_findall element2])"
      using Cons.prems(2) by (simp add: re_findall_identifiers)
    ultimately show ?thesis using Cons.IH Cons.prems(1) by blast
  next
    case False
    then have "opt3_segments split2 (perma @ [re_findall element2], variable) = (perma', variable')"
      using Cons.prems(3) by simp
    moreover have "list_all (list_all is_identifier) (perma @ [re_findall element2])"
      using Cons.prems(1) by (simp add: re_findall_identifiers)
    ultimately show ?thesis using Cons.IH Cons.prems(2) by blast
  qed
qed

lemma opt3_loop_identifiers:
  "list_all (list_all is_identifier) (complexes st) \<Longrightarrow> opt3_loop split1 st = Inr st' \<Longrightarrow>
   list_all (list_all is_identifier) (complexes st')"
proof (induction split1 arbitrary: st)
  case Nil
  then show ?case by simp
next
  case (Cons element split1)
  consider (axis) "contains ''or'' element" "\<not> contains ''and'' element"
    | (both) "contains ''or'' element" "contains ''and'' element"
    | (fixed) "\<not> contains ''or'' element"
    by blast
  then show ?case
  proof cases
    case axis
    then obtain variable where "variable_prot st = Some variable"
      and "opt3_loop split1 (st\<lparr>variable_prot := Some (variable @ [re_findall element])\<rparr>) = Inr st'"
      using Cons.prems(2) by (auto split: option.splits)
    moreover have "list_all (list_all is_identifier)
        (complexes (st\<lparr>variable_prot := Some (variable @ [re_findall element])\<rparr>))"
      using Cons.prems(1) by simp
    ultimately show ?thesis using Cons.IH by blast
  next
    case both
    obtain perma variable where seg:
      "opt3_segments (str_split ''and'' element) ([], []) = (perma, variable)"
      by (cases "opt3_segments (str_split ''and'' element) ([], [])") blast
    then have ids: "list_all (list_all is_identifier) perma \<and>
        list_all (list_all is_identifier) variable"
      using opt3_segments_identifiers [of "[]" "[]"] by simp
    then have "list_all is_identifier (concat perma)" by (auto simp: list_all_iff)
    then have "list_all (list_all is_identifier)
        (complexes (st\<lparr>complexes := extend_product (complexes st) variable (concat perma),
            perma_prot := Some perma, variable_prot := Some variable,
            perma_flat := Some (concat perma)\<rparr>))"
      using Cons.prems(1) ids by (simp add: extend_product_all)
    moreover have "opt3_loop split1
        (st\<lparr>complexes := extend_product (complexes st) variable (concat perma),
            perma_prot := Some perma, variable_prot := Some variable,
            perma_flat := Some (concat perma)\<rparr>) = Inr st'"
      using Cons.prems(2) both seg by simp
    ultimately show ?thesis using Cons.IH by blast
  next
    case fixed
    then have "opt3_loop split1 (st\<lparr>complexes := complexes st @ [re_findall element]\<rparr>) = Inr st'"
      using Cons.prems(2) by simp
    moreover have "list_all (list_all is_identifier)
        (complexes (st\<lparr>complexes := complexes st @ [re_findall element]\<rparr>))"
      using Cons.prems(1) by (simp add: re_findall_identifiers)
    ultimately show ?thesis using Cons.IH by blast
  qed
qed

lemma opt4_inner_identifiers:
  "list_all (list_all is_identifier) (complexes st) \<Longrightarrow>
   list_all (list_all is_identifier) (complexes (opt4_inner split2 st))"
proof (induction split2 arbitrary: st)
  case Nil
  then show ?case by simp
next
  case (Cons element2 split2)
  let ?r = "re_findall element2"
  let ?perma = "if \<not> contains ''or'' element2 then [?r] else []"
  let ?variable = "if \<not> contains ''or'' element2 then [] else [?r]"
  have "list_all (list_all is_identifier) ?variable" "list_all is_identifier (concat ?perma)"
    by (simp_all add: re_findall_identifiers)
  then have "list_all (list_all is_identifier)
      (extend_product (complexes st) ?variable (concat ?perma))"
    using Cons.prems by (simp only: extend_product_all)
  then show ?case using Cons.IH by (simp add: Let_def)
qed

lemma opt4_loop_identifiers:
  "list_all (list_all is_identifier) (complexes st) \<Longrightarrow>
   list_all (list_all is_identifier) (complexes (opt4_loop split1 st))"
proof (induction split1 arbitrary: st)
  case Nil
  then show ?case by simp
next
  case (Cons element split1)
  then show ?case
    by (simp add: Let_def re_findall_identifiers opt4_inner_identifiers)
qed

lemma classify_rule_identifiers:
  assumes "list_all (list_all is_identifier) (complexes st)" and "classify_rule ID st = Inr st'"
  shows "list_all (list_all is_identifier) (complexes st')"
proof -
  have "\<not> contains ''and'' ID \<or> (contains ''and'' ID \<and> \<not> contains ''or'' ID) \<or>
      classify_rule ID st = opt2 ID st \<or> classify_rule ID st = opt3 ID st \<or>
      classify_rule ID st = opt4 ID st"
    unfolding classify_rule_def by simp
  then consider (none) "\<not> contains ''and'' ID"
    | (opt1) "contains ''and'' ID" "\<not> contains ''or'' ID"
    | (opt2) "classify_rule ID st = opt2 ID st"
    | (opt3) "classify_rule ID st = opt3 ID st"
    | (opt4) "classify_rule ID st = opt4 ID st"
    by blast
  then show ?thesis
  proof cases
    case none
    then show ?thesis using assms by (simp add: classify_rule_def)
  next
    case opt1
    then have "st' = st\<lparr>complexes := complexes st @ [re_findall ID]\<rparr>"
      using assms(2) by (simp add: classify_rule_def)
    then show ?thesis using assms(1) by (simp add: re_findall_identifiers)
  next
    case opt2
    then have "complexes st' = complexes st @ fixed_plus_variable ID"
      using assms(2) by (simp add: opt2_result)
    then show ?thesis using assms(1) by (simp add: fixed_plus_variable_identifiers)
  next
    case opt3
    then have run: "opt3 ID st = Inr st'" using assms(2) by simp
    show ?thesis
    proof (cases "list_all (\<lambda>x. \<not> contains ''or'' x) (str_split '') or ('' ID)")
      case True
      then have "st' = st\<lparr>complexes := complexes st @ map re_findall (str_split '') or ('' ID)\<rparr>"
        using run by (simp add: opt3_def)
      then show ?thesis using assms(1) by (auto simp: list_all_iff re_findall_members)
    next
      case False
      then have "opt3_loop (str_split '') or ('' ID) st = Inr st'"
        using run by (simp add: opt3_def)
      then show ?thesis using assms(1) opt3_loop_identifiers by blast
    qed
  next
    case opt4
    then have "st' = opt4_loop (re_split ID) (st\<lparr>perma_prot := Some [], variable_prot := Some []\<rparr>)"
      using assms(2) by (simp add: opt4_def)
    then show ?thesis using assms(1) by (simp add: opt4_loop_identifiers)
  qed
qed

lemma complex_loop_identifiers:
  "list_all (list_all is_identifier) (complexes st) \<Longrightarrow> complex_loop genes st = Inr st' \<Longrightarrow>
   list_all (list_all is_identifier) (complexes st')"
proof (induction genes arbitrary: st)
  case Nil
  then show ?case by simp
next
  case (Cons ID genes)
  then obtain st1 where "classify_rule ID st = Inr st1" "complex_loop genes st1 = Inr st'"
    by (auto split: sum.splits)
  then show ?case using Cons.IH Cons.prems(1) classify_rule_identifiers by blast
qed

text \<open>Whatever the rules are, the members of every entry of the final collection are
  identifiers.\<close>

lemma final_collection_identifiers:
  assumes "part1 genes = Inr (mons, collection)" and "c \<in> set collection" and "m \<in> set c"
  shows "is_identifier m"
proof -
  obtain st where run: "complex_loop genes (initial_state (monomer_loop genes [])) = Inr st"
    and coll: "collection = unique_complexes (delete_empty (complexes st))"
    using assms(1) by (auto simp: part1_def split: sum.splits)
  have "list_all (list_all is_identifier) (complexes (initial_state (monomer_loop genes [])))"
    by (simp add: initial_state_def)
  then have all: "list_all (list_all is_identifier) (complexes st)"
    using run by (rule complex_loop_identifiers)
  obtain c' where "c' \<in> set (complexes st)" and "c = sort c'"
    using assms(2) coll by (auto simp: set_unique_complexes delete_empty_def)
  then have "m \<in> set c'" "list_all is_identifier c'"
    using assms(3) all by (simp_all add: list_all_iff)
  then show ?thesis by (simp add: list_all_iff)
qed

section \<open>Runs of PART 1 on concrete rule lists\<close>

text \<open>
  Claim C7. Line 211 tests the list \<open>r\<close> against the monomer list, which holds strings,
  so the test never finds it and line 212 stores the identifier again: the rules
  \<open>PP_0001\<close> and \<open>(PP_0002 and PP_0003) or PP_0001\<close> leave \<open>PP_0001\<close> twice in the
  monomer list. Line 222 filters \<open>r\<close> against the monomer list as it is before the
  extension, so an identifier that occurs twice in \<open>r\<close> is stored twice as well.
\<close>

theorem monomer_stored_twice:
  "part1 [''PP_0001'', ''(PP_0002 and PP_0003) or PP_0001''] =
     Inr ([''PP_0001'', ''PP_0001''], [[''PP_0002'', ''PP_0003'']]) \<and>
   \<not> distinct [''PP_0001'', ''PP_0001''] \<and>
   list_in_monomers [''PP_0001''] [''PP_0001''] = False \<and>
   part1 [''PP_0005 or PP_0005 or (PP_0001 and PP_0002)''] =
     Inr ([''PP_0005'', ''PP_0005''], [[''PP_0001'', ''PP_0002'']])"
proof (intro conjI)
  show "part1 [''PP_0005 or PP_0005 or (PP_0001 and PP_0002)''] =
     Inr ([''PP_0005'', ''PP_0005''], [[''PP_0001'', ''PP_0002'']])"
    by code_simp
  show "part1 [''PP_0001'', ''(PP_0002 and PP_0003) or PP_0001''] =
     Inr ([''PP_0001'', ''PP_0001''], [[''PP_0002'', ''PP_0003'']])"
    by code_simp
  show "list_in_monomers [''PP_0001''] [''PP_0001''] = False"
    by (simp add: list_in_monomers_def list_eq_str_def)
qed simp

text \<open>
  Claim C8. Line 168 appends to \<open>variable_prot\<close>, which Opt 3 has not assigned on that
  path. When no earlier rule has assigned it either (Opt 1 does not), the run stops with
  \<open>NameError\<close>.
\<close>

theorem opt3_name_error:
  "part1 [''(PP_0001 or PP_0002) or (PP_0003 and PP_0004)''] = Inl NameError \<and>
   part1 [''PP_0008 and PP_0009'', ''(PP_0001 or PP_0002) or (PP_0003 and PP_0004)''] =
     Inl NameError"
proof (intro conjI)
  show "part1 [''(PP_0001 or PP_0002) or (PP_0003 and PP_0004)''] = Inl NameError"
    by code_simp
  show "part1 [''PP_0008 and PP_0009'', ''(PP_0001 or PP_0002) or (PP_0003 and PP_0004)''] =
     Inl NameError"
    by code_simp
qed

text \<open>
  Claim C9. The monomer loop tests each segment with \<open>r.match\<close>, which looks at the start
  of the segment only, and stores the whole segment: a segment that begins with an
  identifier and goes on is stored as it is. (The members of the complexes are matches of
  \<open>re.findall\<close>, hence identifiers: \<open>final_collection_identifiers\<close>.)
\<close>

theorem monomer_segment_stored:
  "part1 [''PP_0001 OR PP_0002''] = Inr ([''PP_0001 OR PP_0002''], []) \<and>
   \<not> is_identifier ''PP_0001 OR PP_0002'' \<and>
   part1 [''PP_0001 or PP_00025''] = Inr ([''PP_0001'', ''PP_00025''], []) \<and>
   \<not> is_identifier ''PP_00025''"
proof (intro conjI)
  show "part1 [''PP_0001 OR PP_0002''] = Inr ([''PP_0001 OR PP_0002''], [])"
    by code_simp
  show "part1 [''PP_0001 or PP_00025''] = Inr ([''PP_0001'', ''PP_00025''], [])"
    by code_simp
  show "\<not> is_identifier ''PP_0001 OR PP_0002''"
    by (simp add: is_identifier_def)
  show "\<not> is_identifier ''PP_00025''"
    by (simp add: is_identifier_def)
qed

end
